theory Spec2Isabelle
  imports Complex_Main "HOL-Library.Log_Nat"
begin

section \<open>Strings\<close>

text \<open>
  A Python \<open>str\<close> is a sequence of Unicode code points, modelled as a list of natural
  numbers; \<open>lit\<close> writes an ASCII literal as such a list and \<open>ord\<close> gives the code point of
  an ASCII character.
\<close>

type_synonym py_str = "nat list"

definition ord :: "char \<Rightarrow> nat" where
  "ord c = of_char c"

definition lit :: "string \<Rightarrow> py_str" where
  "lit cs = map ord cs"

text \<open>
  The code points \<open>str.strip()\<close> removes are those for which \<open>str.isspace()\<close> holds:
  U+0009 to U+000D, U+001C to U+0020, U+0085, U+00A0, U+1680, U+2000 to U+200A, U+2028,
  U+2029, U+202F, U+205F and U+3000.
\<close>

definition is_space :: "nat \<Rightarrow> bool" where
  "is_space c =
     (if c < 128 then (9 \<le> c \<and> c \<le> 13) \<or> (28 \<le> c \<and> c \<le> 32)
      else c = 0x85 \<or> c = 0xA0 \<or> c = 0x1680 \<or> (0x2000 \<le> c \<and> c \<le> 0x200A) \<or>
           c = 0x2028 \<or> c = 0x2029 \<or> c = 0x202F \<or> c = 0x205F \<or> c = 0x3000)"

definition strip :: "py_str \<Rightarrow> py_str" where
  "strip s = rev (dropWhile is_space (rev (dropWhile is_space s)))"

text \<open>
  \<open>str.upper()\<close> replaces every code point by its full uppercase mapping, which can be
  more than one code point. The mapping is written out for ASCII and for U+0130 and
  U+0307, which map to themselves; the rest of the Unicode table is not part of the
  repository and is the parameter \<open>u\<close>, so that what is proved holds whatever that rest is.
\<close>

type_synonym upper_table = "nat \<Rightarrow> nat list"

definition to_upper :: "upper_table \<Rightarrow> nat \<Rightarrow> nat list" where
  "to_upper u c =
     (if 97 \<le> c \<and> c \<le> 122 then [c - 32]
      else if c < 128 then [c]
      else if c = 0x130 \<or> c = 0x307 then [c]
      else u c)"

definition upper :: "upper_table \<Rightarrow> py_str \<Rightarrow> py_str" where
  "upper u s = concat (map (to_upper u) s)"

text \<open>
  \<open>str.lower()\<close> replaces the code point at every position by its full lowercase
  mapping, which for some code points depends on the position in the string. The
  mapping is written out for ASCII and for U+0130, which becomes the two code points
  U+0069 U+0307; the rest is the parameter \<open>l\<close>, given the string and the position.
\<close>

type_synonym lower_table = "py_str \<Rightarrow> nat \<Rightarrow> nat list"

definition to_lower :: "lower_table \<Rightarrow> py_str \<Rightarrow> nat \<Rightarrow> nat list" where
  "to_lower l s i =
     (let c = s ! i
      in if 65 \<le> c \<and> c \<le> 90 then [c + 32]
         else if c < 128 then [c]
         else if c = 0x130 then [0x69, 0x307]
         else l s i)"

definition lower :: "lower_table \<Rightarrow> py_str \<Rightarrow> py_str" where
  "lower l s = concat (map (to_lower l s) [0..<length s])"

text \<open>\<open>s.startswith('>')\<close>, and \<open>s.count(c)\<close> for a one-character \<open>c\<close>.\<close>

fun startswith_gt :: "py_str \<Rightarrow> bool" where
  "startswith_gt [] = False"
| "startswith_gt (c # cs) = (c = ord CHR ''>'')"

definition str_count :: "py_str \<Rightarrow> nat \<Rightarrow> nat" where
  "str_count s c = length (filter (\<lambda>x. x = c) s)"

section \<open>Errors and dictionaries\<close>

text \<open>
  An exception is a class of Python's built-in hierarchy together with its argument;
  \<open>OtherException name\<close> stands for any further class derived from \<open>Exception\<close>.
  \<open>mro c\<close> lists \<open>c\<close> and its base classes, so that \<open>isinstance\<close> is membership in it;
  an \<open>except C\<close> clause handles exactly the exceptions \<open>e\<close> with \<open>isinstance e C\<close>.
\<close>

datatype exc_class =
    BaseException | Exception | ArithmeticError | ZeroDivisionError | OverflowError
  | LookupError | KeyError | OSError | FileNotFoundError | PermissionError
  | IsADirectoryError | ValueError | UnicodeDecodeError | OtherException py_str
  | KeyboardInterrupt | SystemExit | GeneratorExit

datatype py_error = Raise exc_class py_str

fun mro :: "exc_class \<Rightarrow> exc_class list" where
  "mro BaseException = [BaseException]"
| "mro Exception = [Exception, BaseException]"
| "mro ArithmeticError = [ArithmeticError, Exception, BaseException]"
| "mro ZeroDivisionError = [ZeroDivisionError, ArithmeticError, Exception, BaseException]"
| "mro OverflowError = [OverflowError, ArithmeticError, Exception, BaseException]"
| "mro LookupError = [LookupError, Exception, BaseException]"
| "mro KeyError = [KeyError, LookupError, Exception, BaseException]"
| "mro OSError = [OSError, Exception, BaseException]"
| "mro FileNotFoundError = [FileNotFoundError, OSError, Exception, BaseException]"
| "mro PermissionError = [PermissionError, OSError, Exception, BaseException]"
| "mro IsADirectoryError = [IsADirectoryError, OSError, Exception, BaseException]"
| "mro ValueError = [ValueError, Exception, BaseException]"
| "mro UnicodeDecodeError = [UnicodeDecodeError, ValueError, Exception, BaseException]"
| "mro (OtherException name) = [OtherException name, Exception, BaseException]"
| "mro KeyboardInterrupt = [KeyboardInterrupt, BaseException]"
| "mro SystemExit = [SystemExit, BaseException]"
| "mro GeneratorExit = [GeneratorExit, BaseException]"

fun isinstance :: "py_error \<Rightarrow> exc_class \<Rightarrow> bool" where
  "isinstance (Raise c a) d = (d \<in> set (mro c))"

fun str_of :: "py_error \<Rightarrow> py_str" where
  "str_of (Raise c a) = a"

text \<open>
  A Python \<open>dict\<close> keeps its entries in insertion order; assigning to a key that is
  present replaces the value where the entry stands, assigning to a new key appends an
  entry. Reading a missing key raises \<open>KeyError\<close>.
\<close>

type_synonym py_dict = "(py_str \<times> py_str) list"

fun dict_set :: "py_dict \<Rightarrow> py_str \<Rightarrow> py_str \<Rightarrow> py_dict" where
  "dict_set [] k v = [(k, v)]"
| "dict_set ((k', v') # d) k v = (if k' = k then (k', v) # d else (k', v') # dict_set d k v)"

definition dict_get :: "py_dict \<Rightarrow> py_str \<Rightarrow> py_error + py_str" where
  "dict_get d k = (case map_of d k of None \<Rightarrow> Inl (Raise KeyError k) | Some v \<Rightarrow> Inr v)"

definition dict_keys :: "py_dict \<Rightarrow> py_str list" where
  "dict_keys d = map fst d"

section \<open>The FASTA parsing loop\<close>

text \<open>
  The state of the loop of the FASTA notebook: the dictionary \<open>sequences_dict\<close>, the
  variable \<open>current_sequence_id\<close> (\<open>None\<close> until a header is read) and the lines the
  loop has printed so far.
\<close>

record parser_state =
  sequences_dict :: py_dict
  current_sequence_id :: "py_str option"
  printed :: "py_str list"

definition initial_state :: parser_state where
  "initial_state = \<lparr>sequences_dict = [], current_sequence_id = None, printed = []\<rparr>"

text \<open>\<open>print("Warning: Sequence line found before any header. Skipping:", line)\<close>\<close>

definition warning :: "py_str \<Rightarrow> py_str" where
  "warning line =
     lit ''Warning: Sequence line found before any header. Skipping:'' @ lit '' '' @ line"

text \<open>
  One iteration of the body of \<open>for line in fasta_file\<close>; \<open>raw\<close> is the line as the
  file iterator yields it, with its terminator.
\<close>

definition parse_line :: "upper_table \<Rightarrow> parser_state \<Rightarrow> py_str \<Rightarrow> py_error + parser_state" where
  "parse_line u st raw =
     (let line = strip raw in
      if line = [] then Inr st
      else if startswith_gt line then
        (let cid = drop 1 line in
         Inr (st\<lparr>current_sequence_id := Some cid,
                 sequences_dict := dict_set (sequences_dict st) cid []\<rparr>))
      else
        (case current_sequence_id st of
           Some cid \<Rightarrow>
             (case dict_get (sequences_dict st) cid of
                Inl e \<Rightarrow> Inl e
              | Inr v \<Rightarrow>
                  Inr (st\<lparr>sequences_dict := dict_set (sequences_dict st) cid (v @ upper u line)\<rparr>))
         | None \<Rightarrow> Inr (st\<lparr>printed := printed st @ [warning line]\<rparr>)))"

text \<open>The loop over the lines of the file; an exception ends it.\<close>

fun parse_loop :: "upper_table \<Rightarrow> parser_state \<Rightarrow> py_str list \<Rightarrow> py_error + parser_state" where
  "parse_loop u st [] = Inr st"
| "parse_loop u st (raw # rest) =
     (case parse_line u st raw of Inl e \<Rightarrow> Inl e | Inr st' \<Rightarrow> parse_loop u st' rest)"

text \<open>
  The same loop with the read position of the file iterator made explicit: each
  iteration reads the line at the position and advances it by one. The first component
  of the result lists the positions read, in the order they were read.
\<close>

function scan ::
  "upper_table \<Rightarrow> py_str list \<Rightarrow> nat \<Rightarrow> parser_state \<Rightarrow> nat list \<times> (py_error + parser_state)" where
  "scan u lines pos st =
     (if pos < length lines then
        (case parse_line u st (lines ! pos) of
           Inl e \<Rightarrow> ([pos], Inl e)
         | Inr st' \<Rightarrow>
             (case scan u lines (Suc pos) st' of (visited, r) \<Rightarrow> (pos # visited, r)))
      else ([], Inr st))"
  by pat_completeness auto
termination
  by (relation "measure (\<lambda>(u, lines, pos, st). length lines - pos)") auto

declare scan.simps [simp del]

section \<open>What the description says a parse is\<close>

text \<open>
  These definitions follow the description of the parser, not its code. A header line
  is a line whose whitespace-stripped text begins with the marker \<open>>\<close>; its
  identifier is the rest of that stripped text. The sequence of a record is the
  concatenation, in file order, of the uppercased, stripped, non-blank lines up to the
  next header line or the end of the input.
\<close>

definition is_header :: "py_str \<Rightarrow> bool" where
  "is_header raw = startswith_gt (strip raw)"

definition header_id :: "py_str \<Rightarrow> py_str" where
  "header_id raw = drop 1 (strip raw)"

definition spec_sequence :: "upper_table \<Rightarrow> py_str list \<Rightarrow> py_str" where
  "spec_sequence u rest =
     concat (map (upper u)
       (filter (\<lambda>l. l \<noteq> []) (map strip (takeWhile (\<lambda>r. \<not> is_header r) rest))))"

fun spec_records :: "upper_table \<Rightarrow> py_str list \<Rightarrow> py_dict" where
  "spec_records u [] = []"
| "spec_records u (raw # rest) =
     (if is_header raw then (header_id raw, spec_sequence u rest) # spec_records u rest
      else spec_records u rest)"

text \<open>Storing a list of records into a dictionary, one assignment after the other.\<close>

definition dict_store :: "py_dict \<Rightarrow> py_dict \<Rightarrow> py_dict" where
  "dict_store d rs = foldl (\<lambda>d (k, v). dict_set d k v) d rs"

section \<open>Floats\<close>

text \<open>
  A finite Python float is an IEEE 754 binary64 number, modelled by its value as a
  rational; negative zero is not distinguished from zero. \<open>ilog2 x\<close> is the exponent
  \<open>e\<close> with \<open>2 powi e \<le> x < 2 powi (e + 1)\<close> of a positive \<open>x\<close>. \<open>round_double x\<close> is the
  nearest number with a 53-bit significand and an exponent of at least \<open>-1022\<close> (a
  subnormal number below that), ties going to the even significand; its exponent is
  not bounded above, so a result of magnitude \<open>2 powi 1024\<close> or more stands for an
  overflow, which the operations below turn into an exception or an infinity.
\<close>

definition ilog2 :: "rat \<Rightarrow> int" where
  "ilog2 x =
     (case quotient_of x of
        (p, q) \<Rightarrow> (let d = bitlen p - bitlen q in if 2 powi d \<le> x then d else d - 1))"

definition round_half_even :: "rat \<Rightarrow> int" where
  "round_half_even y =
     (let f = \<lfloor>y\<rfloor>; d = y - of_int f
      in if d < 1 / 2 then f else if 1 / 2 < d then f + 1 else if even f then f else f + 1)"

definition round_double :: "rat \<Rightarrow> rat" where
  "round_double x =
     (if x = 0 then 0
      else (let e = max (ilog2 \<bar>x\<bar>) (- 1022); ulp = 2 powi (e - 52)
            in of_int (round_half_even (x / ulp)) * ulp))"

datatype py_float = Finite rat | PosInf | NegInf

text \<open>
  \<open>a / b\<close> on Python integers: \<open>ZeroDivisionError\<close> for \<open>b = 0\<close>, otherwise the correctly
  rounded quotient, or \<open>OverflowError\<close> when that is too large for a float.
\<close>

definition py_truediv :: "int \<Rightarrow> int \<Rightarrow> py_error + rat" where
  "py_truediv a b =
     (if b = 0 then Inl (Raise ZeroDivisionError (lit ''division by zero''))
      else (let r = round_double (of_int a / of_int b)
            in if 2 powi 1024 \<le> \<bar>r\<bar>
               then Inl (Raise OverflowError (lit ''integer division result too large for a float''))
               else Inr r))"

text \<open>
  \<open>x * n\<close> for a finite float \<open>x\<close> and a small integer \<open>n\<close>, which converts to a float
  exactly: the correctly rounded product, or an infinity.
\<close>

definition float_mul :: "rat \<Rightarrow> rat \<Rightarrow> py_float" where
  "float_mul x y =
     (let r = round_double (x * y)
      in if 2 powi 1024 \<le> \<bar>r\<bar> then (if 0 < r then PosInf else NegInf) else Finite r)"

section \<open>GC content\<close>

text \<open>\<open>calculate_gc_content\<close> of the basics notebook.\<close>

definition calculate_gc_content :: "py_str \<Rightarrow> py_error + py_float" where
  "calculate_gc_content dna_sequence =
     (let g_count = int (str_count dna_sequence (ord CHR ''G''));
          c_count = int (str_count dna_sequence (ord CHR ''C''));
          total_bases = int (length dna_sequence)
      in if total_bases = 0 then Inr (Finite 0)
         else (case py_truediv (g_count + c_count) total_bases of
                 Inl e \<Rightarrow> Inl e
               | Inr q \<Rightarrow> Inr (float_mul q 100)))"

text \<open>\<open>calculate_gc_content\<close> of the FASTA notebook, which uppercases its argument first.\<close>

definition calculate_gc_content_fasta :: "upper_table \<Rightarrow> py_str \<Rightarrow> py_error + py_float" where
  "calculate_gc_content_fasta u dna_sequence0 =
     (let dna_sequence = upper u dna_sequence0;
          g_count = int (str_count dna_sequence (ord CHR ''G''));
          c_count = int (str_count dna_sequence (ord CHR ''C''));
          total_bases = int (length dna_sequence)
      in if total_bases = 0 then Inr (Finite 0)
         else (case py_truediv (g_count + c_count) total_bases of
                 Inl e \<Rightarrow> Inl e
               | Inr q \<Rightarrow> Inr (float_mul q 100)))"

text \<open>
  The percentage as the description gives it, \<open>100 * (count of G + count of C) / len(s)\<close>,
  as an exact number; the quotient has no value for the empty string.
\<close>

definition spec_gc_percentage :: "py_str \<Rightarrow> rat option" where
  "spec_gc_percentage s =
     (if length s = 0 then None
      else Some (100 * of_nat (str_count s (ord CHR ''G'') + str_count s (ord CHR ''C''))
                   / of_nat (length s)))"

text \<open>
  The float the code computes from the two counts \<open>k\<close> and the length \<open>n\<close>: the quotient
  rounded, then its product with 100 rounded.
\<close>

definition gc_double :: "nat \<Rightarrow> nat \<Rightarrow> rat" where
  "gc_double k n = round_double (round_double (of_nat k / of_nat n) * 100)"

section \<open>The error-handling demonstration\<close>

text \<open>
  What the cell prints: a text, or the value of \<open>result\<close> after \<open>Result:\<close> (the
  formatting of a float is outside the model).
\<close>

datatype out_line = Text py_str | Result_line rat

text \<open>
  The two \<open>except\<close> clauses of the division example, tried in order on the exception
  \<open>e\<close> raised in the \<open>try\<close> block; an exception no clause handles propagates.
  \<open>division_try\<close> is the \<open>try\<close> statement and the \<open>print\<close> after it, given the outcome
  of \<open>numerator / denominator\<close>.
\<close>

definition zero_division_message :: py_str where
  "zero_division_message =
     lit ''Oops! You tried to divide by zero. That'' @ [0x27] @ lit ''s not allowed in math.''"

definition except_division :: "py_error \<Rightarrow> py_error + out_line list" where
  "except_division e =
     (if isinstance e ZeroDivisionError then Inr [Text zero_division_message]
      else if isinstance e Exception then
        Inr [Text (lit ''An unexpected error occurred: '' @ str_of e)]
      else Inl e)"

definition division_try :: "py_error + rat \<Rightarrow> py_error + out_line list" where
  "division_try body =
     (case (case body of
              Inr result \<Rightarrow> Inr [Result_line result]
            | Inl e \<Rightarrow> except_division e) of
        Inl e \<Rightarrow> Inl e
      | Inr out \<Rightarrow> Inr (out @ [Text (lit ''Program continued gracefully!'')]))"

definition division_demo :: "int \<Rightarrow> int \<Rightarrow> py_error + out_line list" where
  "division_demo numerator denominator = division_try (py_truediv numerator denominator)"

text \<open>
  The files the cell can see: no entry for a path that does not exist, the exception
  that opening or reading raises, or the content read.
\<close>

type_synonym filesystem = "py_str \<Rightarrow> (py_error + py_str) option"

definition open_read :: "filesystem \<Rightarrow> py_str \<Rightarrow> py_error + py_str" where
  "open_read fs file_name =
     (case fs file_name of
        None \<Rightarrow> Inl (Raise FileNotFoundError file_name)
      | Some r \<Rightarrow> r)"

definition file_not_found_message :: "py_str \<Rightarrow> py_str" where
  "file_not_found_message file_name =
     lit ''Error: The file '' @ [0x27] @ file_name @ [0x27]
       @ lit '' was not found. Please check the name and path.''"

definition except_file :: "py_str \<Rightarrow> py_error \<Rightarrow> py_error + out_line list" where
  "except_file file_name e =
     (if isinstance e FileNotFoundError then Inr [Text (file_not_found_message file_name)]
      else if isinstance e Exception then
        Inr [Text (lit ''An unexpected error occurred while opening the file: '' @ str_of e)]
      else Inl e)"

definition file_try :: "py_str \<Rightarrow> py_error + py_str \<Rightarrow> py_error + out_line list" where
  "file_try file_name body =
     (case body of
        Inr content \<Rightarrow> Inr [Text (lit ''File content:'' @ lit '' '' @ content)]
      | Inl e \<Rightarrow> except_file file_name e)"

definition file_demo :: "filesystem \<Rightarrow> py_str \<Rightarrow> py_error + out_line list" where
  "file_demo fs file_name = file_try file_name (open_read fs file_name)"

text \<open>The whole cell, with the values it assigns to its variables.\<close>

definition error_handling_cell :: "filesystem \<Rightarrow> py_error + out_line list" where
  "error_handling_cell fs =
     (case division_demo 10 0 of
        Inl e \<Rightarrow> Inl e
      | Inr out1 \<Rightarrow>
          (case file_demo fs (lit ''non_existent_file.txt'') of
             Inl e \<Rightarrow> Inl e
           | Inr out2 \<Rightarrow> Inr (out1 @ out2)))"

section \<open>Example inputs\<close>

text \<open>
  Tables that leave every code point beyond the written-out part as it is. The
  examples below hold for every table: their evaluation never consults it.
\<close>

definition plain_upper :: upper_table where
  "plain_upper c = [c]"

definition plain_lower :: lower_table where
  "plain_lower s i = [s ! i]"

definition example_lines :: "py_str list" where
  "example_lines =
     [lit ''>seq1 human'' @ [10], lit ''acgt'' @ [10], [10],
      lit ''  GGcc '' @ [10], lit ''>seq2'' @ [10], lit ''ttaa'']"

definition example_state :: parser_state where
  "example_state = \<lparr>sequences_dict = [(lit ''x'', lit ''AAA''), (lit ''id'', lit ''OLD'')],
     current_sequence_id = Some (lit ''x''), printed = []\<rparr>"

definition example_header :: py_str where
  "example_header = lit '' >id '' @ [10]"

definition example_body :: "py_str list" where
  "example_body = [lit ''ac'' @ [10], [10], lit '' gT '' @ [10]]"

definition example_duplicates :: "py_str list" where
  "example_duplicates =
     [lit ''>a'' @ [10], lit ''acgt'' @ [10], lit ''>b'' @ [10], lit ''cc'' @ [10],
      lit ''>a'' @ [10], lit ''gg'' @ [10], lit ''tt'']"

definition example_state_after :: parser_state where
  "example_state_after = \<lparr>sequences_dict = [(lit ''x'', lit ''AAA''), (lit ''id'', [])],
     current_sequence_id = Some (lit ''id''), printed = []\<rparr>"

text \<open>The two code points U+0130 and \<open>G\<close>.\<close>

definition example_dotted :: py_str where
  "example_dotted = [0x130, ord CHR ''G'']"

section \<open>Dictionary assignments\<close>

lemma map_of_dict_set: "map_of (dict_set d k v) = (map_of d)(k \<mapsto> v)"
  by (induction d) (auto simp: fun_eq_iff)

lemma keys_dict_set:
  "map fst (dict_set d k v) = (if k \<in> set (map fst d) then map fst d else map fst d @ [k])"
  by (induction d) force+

lemma dict_set_twice: "dict_set (dict_set d k a) k b = dict_set d k b"
  by (induction d) auto

lemma dict_set_same: "map_of d k = Some v \<Longrightarrow> dict_set d k v = d"
  by (induction d) (auto split: if_splits)

lemma dict_set_new: "k \<notin> fst ` set d \<Longrightarrow> dict_set d k v = d @ [(k, v)]"
  by (induction d) auto

section \<open>The four cases of one iteration\<close>

lemma parse_line_blank: "strip raw = [] \<Longrightarrow> parse_line u st raw = Inr st"
  by (simp add: parse_line_def)

lemma parse_line_header:
  "is_header raw \<Longrightarrow>
   parse_line u st raw = Inr (st\<lparr>current_sequence_id := Some (header_id raw),
       sequences_dict := dict_set (sequences_dict st) (header_id raw) []\<rparr>)"
  by (auto simp add: parse_line_def is_header_def header_id_def Let_def)

lemma parse_line_seq:
  "\<not> is_header raw \<Longrightarrow> strip raw \<noteq> [] \<Longrightarrow> current_sequence_id st = Some k \<Longrightarrow>
   map_of (sequences_dict st) k = Some v \<Longrightarrow>
   parse_line u st raw = Inr (st\<lparr>sequences_dict := dict_set (sequences_dict st) k (v @ upper u (strip raw))\<rparr>)"
  by (auto simp add: parse_line_def is_header_def dict_get_def Let_def)

lemma parse_line_warn:
  "\<not> is_header raw \<Longrightarrow> strip raw \<noteq> [] \<Longrightarrow> current_sequence_id st = None \<Longrightarrow>
   parse_line u st raw = Inr (st\<lparr>printed := printed st @ [warning (strip raw)]\<rparr>)"
  by (auto simp add: parse_line_def is_header_def dict_get_def Let_def)

section \<open>The loop computes the described records\<close>

lemma dict_store_Nil: "dict_store d [] = d"
  by (simp add: dict_store_def)

lemma dict_store_Cons: "dict_store d ((k, v) # rs) = dict_store (dict_set d k v) rs"
  by (simp add: dict_store_def)

lemma spec_sequence_Nil: "spec_sequence u [] = []"
  by (simp add: spec_sequence_def)

lemma spec_sequence_header: "is_header raw \<Longrightarrow> spec_sequence u (raw # rest) = []"
  by (simp add: spec_sequence_def)

lemma spec_sequence_blank:
  "\<not> is_header raw \<Longrightarrow> strip raw = [] \<Longrightarrow> spec_sequence u (raw # rest) = spec_sequence u rest"
  by (simp add: spec_sequence_def)

lemma spec_sequence_data:
  "\<not> is_header raw \<Longrightarrow> strip raw \<noteq> [] \<Longrightarrow>
   spec_sequence u (raw # rest) = upper u (strip raw) @ spec_sequence u rest"
  by (simp add: spec_sequence_def)

lemma loop_in_record:
  "current_sequence_id st = Some k \<Longrightarrow> map_of (sequences_dict st) k = Some v \<Longrightarrow>
   \<exists>st'. parse_loop u st ls = Inr st' \<and>
     sequences_dict st' =
       dict_store (dict_set (sequences_dict st) k (v @ spec_sequence u ls)) (spec_records u ls) \<and>
     printed st' = printed st"
proof (induction ls arbitrary: st k v)
  case Nil
  then show ?case
    by (simp add: spec_sequence_Nil dict_store_Nil dict_set_same)
next
  case (Cons raw rest)
  show ?case
  proof (cases "is_header raw")
    case True
    let ?st1 = "st\<lparr>current_sequence_id := Some (header_id raw),
       sequences_dict := dict_set (sequences_dict st) (header_id raw) []\<rparr>"
    have step: "parse_line u st raw = Inr ?st1"
      using True by (rule parse_line_header)
    have "\<exists>st'. parse_loop u ?st1 rest = Inr st' \<and>
       sequences_dict st' = dict_store (dict_set (sequences_dict ?st1) (header_id raw)
          ([] @ spec_sequence u rest)) (spec_records u rest) \<and> printed st' = printed ?st1"
      by (rule Cons.IH) (simp_all add: map_of_dict_set)
    then show ?thesis
      using True step Cons.prems
      by (simp add: spec_sequence_header dict_store_Cons dict_set_twice dict_set_same)
  next
    case False
    show ?thesis
    proof (cases "strip raw = []")
      case True
      have "parse_line u st raw = Inr st"
        using True by (rule parse_line_blank)
      then show ?thesis
        using Cons.IH [OF Cons.prems] False True by (simp add: spec_sequence_blank)
    next
      case data: False
      let ?st1 = "st\<lparr>sequences_dict := dict_set (sequences_dict st) k (v @ upper u (strip raw))\<rparr>"
      have step: "parse_line u st raw = Inr ?st1"
        using False data Cons.prems by (rule parse_line_seq)
      have "\<exists>st'. parse_loop u ?st1 rest = Inr st' \<and>
         sequences_dict st' = dict_store (dict_set (sequences_dict ?st1) k
            ((v @ upper u (strip raw)) @ spec_sequence u rest)) (spec_records u rest) \<and>
         printed st' = printed ?st1"
        by (rule Cons.IH) (simp_all add: map_of_dict_set Cons.prems)
      then show ?thesis
        using False data step
        by (simp add: spec_sequence_data dict_set_twice)
    qed
  qed
qed

lemma loop_before_header:
  "current_sequence_id st = None \<Longrightarrow>
   \<exists>st'. parse_loop u st ls = Inr st' \<and>
     sequences_dict st' = dict_store (sequences_dict st) (spec_records u ls)"
proof (induction ls arbitrary: st)
  case Nil
  then show ?case by (simp add: dict_store_Nil)
next
  case (Cons raw rest)
  show ?case
  proof (cases "is_header raw")
    case True
    let ?st1 = "st\<lparr>current_sequence_id := Some (header_id raw),
       sequences_dict := dict_set (sequences_dict st) (header_id raw) []\<rparr>"
    have step: "parse_line u st raw = Inr ?st1"
      using True by (rule parse_line_header)
    have "\<exists>st'. parse_loop u ?st1 rest = Inr st' \<and>
       sequences_dict st' = dict_store (dict_set (sequences_dict ?st1) (header_id raw)
          ([] @ spec_sequence u rest)) (spec_records u rest) \<and> printed st' = printed ?st1"
      by (rule loop_in_record) (simp_all add: map_of_dict_set)
    then show ?thesis
      using True step
      by (auto simp add: dict_store_Cons dict_set_twice)
  next
    case False
    show ?thesis
    proof (cases "strip raw = []")
      case True
      have "parse_line u st raw = Inr st"
        using True by (rule parse_line_blank)
      then show ?thesis
        using Cons.IH [OF Cons.prems] False by simp
    next
      case data: False
      let ?st1 = "st\<lparr>printed := printed st @ [warning (strip raw)]\<rparr>"
      have step: "parse_line u st raw = Inr ?st1"
        using False data Cons.prems by (rule parse_line_warn)
      have "\<exists>st'. parse_loop u ?st1 rest = Inr st' \<and>
         sequences_dict st' = dict_store (sequences_dict ?st1) (spec_records u rest)"
        by (rule Cons.IH) (simp add: Cons.prems)
      then show ?thesis
        using False step by simp
    qed
  qed
qed

lemma dict_store_distinct:
  "distinct (map fst (d @ rs)) \<Longrightarrow> dict_store d rs = d @ rs"
proof (induction rs arbitrary: d)
  case Nil
  then show ?case by (simp add: dict_store_Nil)
next
  case (Cons r rs)
  obtain k v where r: "r = (k, v)" by (cases r)
  have new: "dict_set d k v = d @ [(k, v)]"
    using Cons.prems r by (intro dict_set_new) auto
  have "dict_store (d @ [(k, v)]) rs = (d @ [(k, v)]) @ rs"
    using Cons.prems r by (intro Cons.IH) auto
  then show ?case
    using r new by (simp add: dict_store_Cons)
qed

lemma map_of_dict_store:
  "map_of (dict_store d rs) = map_of d ++ map_of (rev rs)"
proof (induction rs arbitrary: d)
  case Nil
  then show ?case by (simp add: dict_store_Nil)
next
  case (Cons r rs)
  obtain k v where r: "r = (k, v)" by (cases r)
  show ?case
    unfolding r dict_store_Cons Cons.IH
    by (auto simp add: map_of_dict_set fun_eq_iff map_add_def split: option.splits)
qed

lemma keys_dict_store:
  "distinct (map fst d) \<Longrightarrow> distinct (map fst (dict_store d rs)) \<and>
     set (map fst (dict_store d rs)) = set (map fst d) \<union> set (map fst rs)"
proof (induction rs arbitrary: d)
  case Nil
  then show ?case by (simp add: dict_store_Nil)
next
  case (Cons r rs)
  obtain k v where r: "r = (k, v)" by (cases r)
  have "distinct (map fst (dict_set d k v))"
    using Cons.prems by (simp add: keys_dict_set)
  from Cons.IH [OF this] show ?case
    unfolding r dict_store_Cons by (auto simp add: keys_dict_set split: if_splits)
qed

lemma keys_spec_records: "map fst (spec_records u ls) = map header_id (filter is_header ls)"
  by (induction ls) auto

lemma parse_loop_append:
  "parse_loop u st (xs @ ys) =
     (case parse_loop u st xs of Inl e \<Rightarrow> Inl e | Inr st' \<Rightarrow> parse_loop u st' ys)"
  by (induction xs arbitrary: st) (auto split: sum.splits)

lemma loop_no_header:
  "current_sequence_id st = None \<Longrightarrow> list_all (\<lambda>r. \<not> is_header r) ls \<Longrightarrow>
   \<exists>st'. parse_loop u st ls = Inr st' \<and> current_sequence_id st' = None \<and>
     sequences_dict st' = sequences_dict st \<and>
     printed st' = printed st @ map warning (filter (\<lambda>l. l \<noteq> []) (map strip ls))"
proof (induction ls arbitrary: st)
  case Nil
  then show ?case by simp
next
  case (Cons raw rest)
  then have nh: "\<not> is_header raw" and rest: "list_all (\<lambda>r. \<not> is_header r) rest"
    by simp_all
  show ?case
  proof (cases "strip raw = []")
    case True
    have "parse_line u st raw = Inr st"
      using True by (rule parse_line_blank)
    then show ?thesis
      using Cons.IH [OF Cons.prems(1) rest] True by simp
  next
    case False
    let ?st1 = "st\<lparr>printed := printed st @ [warning (strip raw)]\<rparr>"
    have step: "parse_line u st raw = Inr ?st1"
      using nh False Cons.prems(1) by (rule parse_line_warn)
    have "\<exists>st'. parse_loop u ?st1 rest = Inr st' \<and> current_sequence_id st' = None \<and>
       sequences_dict st' = sequences_dict ?st1 \<and>
       printed st' = printed ?st1 @ map warning (filter (\<lambda>l. l \<noteq> []) (map strip rest))"
      by (rule Cons.IH) (simp_all add: Cons.prems(1) rest)
    then show ?thesis
      using step False by simp
  qed
qed

lemma loop_silent:
  "current_sequence_id st = None \<Longrightarrow>
   list_all (\<lambda>raw. strip raw = []) (takeWhile (\<lambda>r. \<not> is_header r) ls) \<Longrightarrow>
   \<exists>st'. parse_loop u st ls = Inr st' \<and> printed st' = printed st"
proof (induction ls arbitrary: st)
  case Nil
  then show ?case by simp
next
  case (Cons raw rest)
  show ?case
  proof (cases "is_header raw")
    case True
    let ?st1 = "st\<lparr>current_sequence_id := Some (header_id raw),
       sequences_dict := dict_set (sequences_dict st) (header_id raw) []\<rparr>"
    have step: "parse_line u st raw = Inr ?st1"
      using True by (rule parse_line_header)
    have "\<exists>st'. parse_loop u ?st1 rest = Inr st' \<and>
       sequences_dict st' = dict_store (dict_set (sequences_dict ?st1) (header_id raw)
          ([] @ spec_sequence u rest)) (spec_records u rest) \<and> printed st' = printed ?st1"
      by (rule loop_in_record) (simp_all add: map_of_dict_set)
    then show ?thesis
      using step by auto
  next
    case False
    with Cons.prems(2) have blank: "strip raw = []"
      and rest: "list_all (\<lambda>raw. strip raw = []) (takeWhile (\<lambda>r. \<not> is_header r) rest)"
      by simp_all
    have "parse_line u st raw = Inr st"
      using blank by (rule parse_line_blank)
    then show ?thesis
      using Cons.IH [OF Cons.prems(1) rest] by simp
  qed
qed

lemma dict_get_Inr: "map_of d k = Some v \<Longrightarrow> dict_get d k = Inr v"
  by (simp add: dict_get_def)

lemma spec_sequence_no_header:
  "list_all (\<lambda>r. \<not> is_header r) body \<Longrightarrow>
   spec_sequence u body = concat (map (upper u) (filter (\<lambda>l. l \<noteq> []) (map strip body)))"
proof -
  assume "list_all (\<lambda>r. \<not> is_header r) body"
  then have tw: "takeWhile (\<lambda>r. \<not> is_header r) body = body"
    by (simp add: list_all_iff)
  show ?thesis
    by (simp only: spec_sequence_def tw)
qed

lemma spec_sequence_until_header:
  "list_all (\<lambda>r. \<not> is_header r) body \<Longrightarrow> is_header nxt \<Longrightarrow>
   spec_sequence u (body @ nxt # later) = spec_sequence u body"
proof -
  assume all: "list_all (\<lambda>r. \<not> is_header r) body" and nxt: "is_header nxt"
  have "takeWhile (\<lambda>r. \<not> is_header r) (body @ nxt # later)
      = body @ takeWhile (\<lambda>r. \<not> is_header r) (nxt # later)"
    using all by (intro takeWhile_append2) (simp add: list_all_iff)
  then have tw1: "takeWhile (\<lambda>r. \<not> is_header r) (body @ nxt # later) = body"
    using nxt by simp
  have tw2: "takeWhile (\<lambda>r. \<not> is_header r) body = body"
    using all by (simp add: list_all_iff)
  show ?thesis
    by (simp only: spec_sequence_def tw1 tw2)
qed

lemma spec_records_no_header:
  "list_all (\<lambda>r. \<not> is_header r) body \<Longrightarrow> spec_records u body = []"
  by (induction body) auto

lemma loop_state_id_kept:
  "list_all (\<lambda>r. \<not> is_header r) body \<Longrightarrow> parse_loop u st body = Inr st' \<Longrightarrow>
   current_sequence_id st' = current_sequence_id st"
proof (induction body arbitrary: st)
  case Nil
  then show ?case by simp
next
  case (Cons raw rest)
  then obtain st1 where step: "parse_line u st raw = Inr st1" and run: "parse_loop u st1 rest = Inr st'"
    by (auto split: sum.splits)
  from Cons.prems(1) have nh: "\<not> is_header raw" and rest: "list_all (\<lambda>r. \<not> is_header r) rest"
    by simp_all
  have "current_sequence_id st1 = current_sequence_id st"
    using step nh
    by (auto simp add: parse_line_def is_header_def Let_def split: if_splits option.splits sum.splits)
  with Cons.IH [OF rest run] show ?case by simp
qed

lemma parse_line_keys_distinct:
  "distinct (map fst (sequences_dict s)) \<Longrightarrow> parse_line u s raw = Inr s' \<Longrightarrow>
   distinct (map fst (sequences_dict s'))"
  by (auto simp add: parse_line_def Let_def keys_dict_set
      split: if_splits option.splits sum.splits)

lemma map_of_rev_last:
  "filter (\<lambda>r. fst r = k) rs \<noteq> [] \<Longrightarrow>
   map_of (rev rs) k = Some (snd (last (filter (\<lambda>r. fst r = k) rs)))"
  by (induction rs rule: rev_induct) (auto split: if_splits)

lemma count_spec_records:
  "length (filter (\<lambda>r. fst r = k) (spec_records u ls))
     = length (filter (\<lambda>raw. is_header raw \<and> header_id raw = k) ls)"
  by (induction ls) auto

lemma distinct_key_once:
  "distinct (map fst d) \<Longrightarrow> k \<in> fst ` set d \<Longrightarrow> length (filter (\<lambda>e. fst e = k) d) = 1"
proof (induction d)
  case Nil
  then show ?case by simp
next
  case (Cons e d)
  show ?case
  proof (cases "fst e = k")
    case True
    then have "k \<notin> fst ` set d"
      using Cons.prems(1) by auto
    then have "filter (\<lambda>e. fst e = k) d = []"
      by (auto simp add: filter_empty_conv)
    then show ?thesis
      using True by simp
  next
    case False
    then show ?thesis
      using Cons by auto
  qed
qed

lemma scan_parse_loop:
  "pos \<le> length lines \<Longrightarrow> parse_loop u st (drop pos lines) = Inr st' \<Longrightarrow>
   scan u lines pos st = ([pos..<length lines], Inr st')"
proof (induction u lines pos st rule: scan.induct)
  case (1 u lines pos st)
  show ?case
  proof (cases "pos < length lines")
    case True
    then have dr: "drop pos lines = lines ! pos # drop (Suc pos) lines"
      by (simp add: Cons_nth_drop_Suc)
    from "1.prems"(2) obtain st1 where step: "parse_line u st (lines ! pos) = Inr st1"
      and run: "parse_loop u st1 (drop (Suc pos) lines) = Inr st'"
      unfolding dr by (auto split: sum.splits)
    have "scan u lines (Suc pos) st1 = ([Suc pos..<length lines], Inr st')"
      using True step run by (intro "1.IH") simp_all
    then show ?thesis
      using True step by (subst scan.simps) (simp add: upt_conv_Cons)
  next
    case False
    then have "pos = length lines"
      using "1.prems"(1) by simp
    then show ?thesis
      using "1.prems"(2) by (subst scan.simps) simp
  qed
qed

section \<open>Rounding to a double\<close>

lemma bitlen_powi_bounds:
  assumes "0 < p"
  shows "(2::rat) powi (bitlen p - 1) \<le> of_int p" and "of_int p < (2::rat) powi (bitlen p)"
proof -
  from bitlen_bounds [OF assms]
  have lo: "2 ^ nat (bitlen p - 1) \<le> p" and hi: "p < 2 ^ nat (bitlen p)"
    by simp_all
  have b1: "1 \<le> bitlen p"
    using assms by (simp add: bitlen_alt_def)
  have "(of_int (2 ^ nat (bitlen p - 1)) :: rat) \<le> of_int p"
    using lo by (simp only: of_int_le_iff)
  then show "(2::rat) powi (bitlen p - 1) \<le> of_int p"
    using b1 by (simp add: power_int_def)
  have "(of_int p :: rat) < of_int (2 ^ nat (bitlen p))"
    using hi by (simp only: of_int_less_iff)
  then show "of_int p < (2::rat) powi (bitlen p)"
    using b1 by (simp add: power_int_def)
qed

lemma ilog2_bounds:
  assumes "0 < x"
  shows "2 powi (ilog2 x) \<le> x" and "x < 2 powi (ilog2 x + 1)"
proof -
  obtain p q where pq: "quotient_of x = (p, q)"
    by (cases "quotient_of x")
  then have q: "0 < q" and x: "x = of_int p / of_int q"
    by (simp_all add: quotient_of_denom_pos quotient_of_div)
  have p: "0 < p"
    using assms q x by (simp add: zero_less_divide_iff)
  let ?d = "bitlen p - bitlen q"
  note bp = bitlen_powi_bounds [OF p] and bq = bitlen_powi_bounds [OF q]
  have qpos: "(0::rat) < of_int q"
    using q by simp
  have "2 powi (?d - 1) * of_int q < (2::rat) powi (?d - 1) * 2 powi (bitlen q)"
    using bq(2) by (simp add: mult_strict_left_mono)
  also have "\<dots> = 2 powi (bitlen p - 1)"
    by (simp add: power_int_add [symmetric])
  also have "\<dots> \<le> of_int p"
    by (rule bp(1))
  finally have lo: "2 powi (?d - 1) \<le> x"
    unfolding x using qpos by (simp add: pos_le_divide_eq)
  have "of_int p < (2::rat) powi (bitlen p)"
    by (rule bp(2))
  also have "\<dots> = 2 powi (?d + 1) * 2 powi (bitlen q - 1)"
    by (simp add: power_int_add [symmetric])
  also have "\<dots> \<le> 2 powi (?d + 1) * of_int q"
    using bq(1) by (simp add: mult_left_mono)
  finally have hi: "x < 2 powi (?d + 1)"
    unfolding x using qpos by (simp add: pos_divide_less_eq)
  show "2 powi (ilog2 x) \<le> x"
    using lo by (simp add: ilog2_def pq Let_def)
  show "x < 2 powi (ilog2 x + 1)"
    using hi by (auto simp add: ilog2_def pq Let_def not_le)
qed

lemma round_half_even_cases:
  "round_half_even y = \<lfloor>y\<rfloor> \<and> y - of_int \<lfloor>y\<rfloor> \<le> 1 / 2 \<or>
   round_half_even y = \<lfloor>y\<rfloor> + 1 \<and> 1 / 2 \<le> y - of_int \<lfloor>y\<rfloor>"
  unfolding round_half_even_def Let_def by auto

lemma round_half_even_error: "\<bar>of_int (round_half_even y) - y\<bar> \<le> 1 / 2"
proof -
  have fl: "of_int \<lfloor>y\<rfloor> \<le> y" "y < of_int \<lfloor>y\<rfloor> + 1"
    by linarith+
  from round_half_even_cases [of y] show ?thesis
  proof
    assume "round_half_even y = \<lfloor>y\<rfloor> \<and> y - of_int \<lfloor>y\<rfloor> \<le> 1 / 2"
    then show ?thesis using fl by simp
  next
    assume "round_half_even y = \<lfloor>y\<rfloor> + 1 \<and> 1 / 2 \<le> y - of_int \<lfloor>y\<rfloor>"
    then show ?thesis using fl by simp
  qed
qed

lemma round_half_even_le:
  assumes "y \<le> of_int k"
  shows "round_half_even y \<le> k"
proof (cases "y = of_int k")
  case True
  then show ?thesis
    by (simp add: round_half_even_def)
next
  case False
  with assms have "y < of_int k"
    by simp
  then have "\<lfloor>y\<rfloor> < k"
    by (simp add: floor_less_iff)
  then show ?thesis
    using round_half_even_cases [of y] by auto
qed

lemma round_half_even_ge:
  assumes "of_int k \<le> y"
  shows "k \<le> round_half_even y"
proof -
  have "k \<le> \<lfloor>y\<rfloor>"
    using assms by (simp add: le_floor_iff)
  then show ?thesis
    using round_half_even_cases [of y] by auto
qed

lemma round_double_nonneg:
  assumes "0 \<le> x"
  shows "0 \<le> round_double x"
proof (cases "x = 0")
  case True
  then show ?thesis by (simp add: round_double_def)
next
  case False
  let ?u = "(2::rat) powi (max (ilog2 \<bar>x\<bar>) (- 1022) - 52)"
  have "of_int 0 \<le> x / ?u"
    using assms by simp
  then have "0 \<le> round_half_even (x / ?u)"
    by (rule round_half_even_ge)
  then show ?thesis
    using False by (simp add: round_double_def Let_def)
qed

lemma round_double_exponent:
  assumes "0 < x" and "x < 2 powi (m + 1)" and "- 1022 \<le> m"
  shows "max (ilog2 \<bar>x\<bar>) (- 1022) \<le> m"
proof -
  have lt: "(2::rat) powi (ilog2 x) < 2 powi (m + 1)"
    using ilog2_bounds(1) [OF assms(1)] assms(2) by simp
  have "ilog2 x < m + 1"
  proof (rule ccontr)
    assume "\<not> ilog2 x < m + 1"
    then have "(2::rat) powi (m + 1) \<le> 2 powi (ilog2 x)"
      by (intro power_int_increasing) simp_all
    with lt show False
      by simp
  qed
  then show ?thesis
    using assms by simp
qed

lemma round_double_error:
  assumes "0 < x" and "x < 2 powi (m + 1)" and "- 1022 \<le> m"
  shows "\<bar>round_double x - x\<bar> \<le> 2 powi (m - 53)"
proof -
  let ?e = "max (ilog2 \<bar>x\<bar>) (- 1022)"
  let ?u = "(2::rat) powi (?e - 52)"
  have e: "?e \<le> m"
    using assms by (rule round_double_exponent)
  have u: "0 < ?u"
    by simp
  have "round_double x - x = (of_int (round_half_even (x / ?u)) - x / ?u) * ?u"
    using assms(1) u by (simp add: round_double_def Let_def field_simps)
  then have "\<bar>round_double x - x\<bar> = \<bar>of_int (round_half_even (x / ?u)) - x / ?u\<bar> * ?u"
    using u by (simp add: abs_mult)
  also have "\<dots> \<le> 1 / 2 * ?u"
    using round_half_even_error [of "x / ?u"] u by (intro mult_right_mono) simp_all
  also have "\<dots> = 2 powi (?e - 53)"
    by (simp add: power_int_diff)
  also have "\<dots> \<le> 2 powi (m - 53)"
    using e by (intro power_int_increasing) simp_all
  finally show ?thesis .
qed

lemma round_double_ge_pow2:
  assumes "2 powi m \<le> x" and "- 1022 \<le> m"
  shows "2 powi m \<le> round_double x"
proof -
  have x: "0 < x"
    using assms(1) by (rule less_le_trans [rotated]) simp
  have "(2::rat) powi m < 2 powi (ilog2 x + 1)"
    using assms(1) ilog2_bounds(2) [OF x] by simp
  have m: "m \<le> ilog2 x"
  proof (rule ccontr)
    assume "\<not> m \<le> ilog2 x"
    then have "(2::rat) powi (ilog2 x + 1) \<le> 2 powi m"
      by (intro power_int_increasing) simp_all
    with \<open>(2::rat) powi m < 2 powi (ilog2 x + 1)\<close> show False
      by simp
  qed
  define e where "e = ilog2 x"
  let ?u = "(2::rat) powi (e - 52)"
  have max: "max (ilog2 \<bar>x\<bar>) (- 1022) = e"
    using m assms(2) x by (simp add: e_def)
  have u: "0 < ?u"
    by simp
  have "(2::rat) powi e / ?u = 2 powi (e - (e - 52))"
    by (simp only: power_int_diff [symmetric, of 2] simp_thms numeral_neq_zero)
  also have "\<dots> = of_int (2 ^ 52)"
    by simp
  finally have k: "(2::rat) powi e / ?u = of_int (2 ^ 52)" .
  have "2 powi e / ?u \<le> x / ?u"
    using ilog2_bounds(1) [OF x] u by (simp add: divide_right_mono e_def)
  then have "2 ^ 52 \<le> round_half_even (x / ?u)"
    unfolding k by (rule round_half_even_ge)
  then have "(of_int (2 ^ 52) :: rat) \<le> of_int (round_half_even (x / ?u))"
    by (simp only: of_int_le_iff)
  then have "2 powi e / ?u * ?u \<le> of_int (round_half_even (x / ?u)) * ?u"
    unfolding k [symmetric] using u by (intro mult_right_mono) simp_all
  then have "2 powi e \<le> round_double x"
    using x max by (simp add: round_double_def Let_def)
  moreover have "(2::rat) powi m \<le> 2 powi e"
    using m by (intro power_int_increasing) (simp_all add: e_def)
  ultimately show ?thesis
    by simp
qed

lemma round_double_le_pow2:
  assumes "0 < x" and "x \<le> 2 powi m" and "- 1022 \<le> m"
  shows "round_double x \<le> 2 powi m"
proof -
  let ?e = "max (ilog2 \<bar>x\<bar>) (- 1022)"
  let ?u = "(2::rat) powi (?e - 52)"
  have "x < 2 powi (m + 1)"
    using assms(2) by (rule le_less_trans) (simp add: power_int_strict_increasing)
  with assms have e: "?e \<le> m"
    by (intro round_double_exponent)
  have u: "0 < ?u"
    by simp
  define n where "n = m - ?e + 52"
  have n: "0 \<le> n"
    using e unfolding n_def by linarith
  have "(2::rat) powi m / ?u = 2 powi (m - (?e - 52))"
    by (simp only: power_int_diff [symmetric, of 2] simp_thms numeral_neq_zero)
  also have "m - (?e - 52) = n"
    unfolding n_def by linarith
  also have "(2::rat) powi n = 2 ^ nat n"
    using n by (simp only: power_int_def if_True)
  finally have k: "(2::rat) powi m / ?u = of_int (2 ^ nat n)"
    by simp
  have "x / ?u \<le> 2 powi m / ?u"
    using assms(2) u by (simp add: divide_right_mono)
  then have "round_half_even (x / ?u) \<le> 2 ^ nat n"
    unfolding k by (rule round_half_even_le)
  then have "(of_int (round_half_even (x / ?u)) :: rat) \<le> of_int (2 ^ nat n)"
    by (simp only: of_int_le_iff)
  then have "of_int (round_half_even (x / ?u)) * ?u \<le> 2 powi m / ?u * ?u"
    unfolding k [symmetric] using u by (intro mult_right_mono) simp_all
  then show ?thesis
    using assms(1) by (simp add: round_double_def Let_def)
qed

lemma round_double_unit:
  assumes "0 \<le> x" and "x \<le> 1"
  shows "0 \<le> round_double x" and "round_double x \<le> 1"
    and "\<bar>round_double x - x\<bar> \<le> 1 / 2 ^ 53"
proof -
  show "0 \<le> round_double x"
    using assms(1) by (rule round_double_nonneg)
  show "round_double x \<le> 1"
  proof (cases "x = 0")
    case True
    then show ?thesis by (simp add: round_double_def)
  next
    case False
    then have "0 < x" using assms(1) by simp
    moreover have "x \<le> 2 powi 0" using assms(2) by simp
    ultimately have "round_double x \<le> 2 powi 0"
      by (rule round_double_le_pow2) simp
    then show ?thesis by simp
  qed
  show "\<bar>round_double x - x\<bar> \<le> 1 / 2 ^ 53"
  proof (cases "x = 0")
    case True
    then show ?thesis by (simp add: round_double_def)
  next
    case False
    then have "0 < x" using assms(1) by simp
    moreover have "x < 2 powi (0 + 1)" using assms(2) by simp
    ultimately have "\<bar>round_double x - x\<bar> \<le> 2 powi (0 - 53)"
      by (rule round_double_error) simp
    then show ?thesis by (simp add: power_int_minus_divide)
  qed
qed

lemma round_double_percent:
  assumes "0 \<le> y" and "y \<le> 100"
  shows "0 \<le> round_double y" and "round_double y \<le> 128"
    and "\<bar>round_double y - y\<bar> \<le> 1 / 2 ^ 47"
proof -
  show "0 \<le> round_double y"
    using assms(1) by (rule round_double_nonneg)
  show "round_double y \<le> 128"
  proof (cases "y = 0")
    case True
    then show ?thesis by (simp add: round_double_def)
  next
    case False
    then have "0 < y" using assms(1) by simp
    moreover have "y \<le> 2 powi 7" using assms(2) by simp
    ultimately have "round_double y \<le> 2 powi 7"
      by (rule round_double_le_pow2) simp
    then show ?thesis by simp
  qed
  show "\<bar>round_double y - y\<bar> \<le> 1 / 2 ^ 47"
  proof (cases "y = 0")
    case True
    then show ?thesis by (simp add: round_double_def)
  next
    case False
    then have "0 < y" using assms(1) by simp
    moreover have "y < 2 powi (6 + 1)" using assms(2) by simp
    ultimately have "\<bar>round_double y - y\<bar> \<le> 2 powi (6 - 53)"
      by (rule round_double_error) simp
    then show ?thesis by (simp add: power_int_minus_divide)
  qed
qed

lemma py_truediv_overflow:
  assumes "0 < b" and "2 powi 1024 * of_int b \<le> (of_int a :: rat)"
  shows "py_truediv a b
     = Inl (Raise OverflowError (lit ''integer division result too large for a float''))"
proof -
  have "(2::rat) powi 1024 \<le> of_int a / of_int b"
    using assms by (simp add: pos_le_divide_eq)
  then have "2 powi 1024 \<le> round_double (of_int a / of_int b)"
    by (rule round_double_ge_pow2) simp
  then have "2 powi 1024 \<le> \<bar>round_double (of_int a / of_int b)\<bar>"
    by simp
  then show ?thesis
    using assms(1) by (simp add: py_truediv_def Let_def)
qed

section \<open>The value of the GC content\<close>

lemma count_two_le: "a \<noteq> b \<Longrightarrow> str_count s a + str_count s b \<le> length s"
  by (induction s) (auto simp add: str_count_def)

lemma gc_quotient:
  assumes "0 < n" and "k \<le> n"
  shows "py_truediv (int k) (int n) = Inr (round_double (of_nat k / of_nat n))"
proof -
  have "(0::rat) \<le> of_nat k / of_nat n" and "(of_nat k / of_nat n :: rat) \<le> 1"
    using assms by simp_all
  then have "0 \<le> round_double (of_nat k / of_nat n)" and "round_double (of_nat k / of_nat n) \<le> 1"
    by (rule round_double_unit)+
  then have "\<bar>round_double (of_nat k / of_nat n)\<bar> \<le> 1"
    by simp
  moreover have "(1::rat) < 2 powi 1024"
    by simp
  ultimately have "\<not> 2 powi 1024 \<le> \<bar>round_double (of_nat k / of_nat n)\<bar>"
    by linarith
  then show ?thesis
    using assms(1) by (simp add: py_truediv_def Let_def)
qed

lemma gc_product:
  assumes "0 < n" and "k \<le> n"
  shows "float_mul (round_double (of_nat k / of_nat n)) 100 = Finite (gc_double k n)"
proof -
  have "(0::rat) \<le> of_nat k / of_nat n" and "(of_nat k / of_nat n :: rat) \<le> 1"
    using assms by simp_all
  then have "0 \<le> round_double (of_nat k / of_nat n)" and "round_double (of_nat k / of_nat n) \<le> 1"
    by (rule round_double_unit)+
  then have "0 \<le> round_double (of_nat k / of_nat n) * 100"
    and "round_double (of_nat k / of_nat n) * 100 \<le> 100"
    by simp_all
  then have "0 \<le> gc_double k n" and "gc_double k n \<le> 128"
    unfolding gc_double_def by (rule round_double_percent)+
  then have "\<bar>gc_double k n\<bar> \<le> 128"
    by simp
  moreover have "(128::rat) < 2 powi 1024"
    by simp
  ultimately have "\<not> 2 powi 1024 \<le> \<bar>gc_double k n\<bar>"
    by linarith
  then show ?thesis
    by (simp add: float_mul_def Let_def gc_double_def)
qed

lemma gc_double_error:
  assumes "0 < n" and "k \<le> n"
  shows "\<bar>gc_double k n - 100 * of_nat k / of_nat n\<bar> \<le> 1 / 2 ^ 45"
proof -
  define x :: rat where "x = of_nat k / of_nat n"
  define q where "q = round_double x"
  have x: "0 \<le> x" "x \<le> 1"
    using assms by (simp_all add: x_def)
  then have q: "0 \<le> q" "q \<le> 1" and qx: "\<bar>q - x\<bar> \<le> 1 / 2 ^ 53"
    unfolding q_def by (rule round_double_unit)+
  from q have "0 \<le> q * 100" and "q * 100 \<le> 100"
    by simp_all
  then have ry: "\<bar>round_double (q * 100) - q * 100\<bar> \<le> 1 / 2 ^ 47"
    by (rule round_double_percent)
  have "\<bar>round_double (q * 100) - 100 * x\<bar>
      \<le> \<bar>round_double (q * 100) - q * 100\<bar> + 100 * \<bar>q - x\<bar>"
    by (simp add: abs_if split: if_splits)
  also have "\<dots> \<le> 1 / 2 ^ 47 + 100 * (1 / 2 ^ 53)"
    using ry qx by (intro add_mono mult_left_mono) simp_all
  also have "\<dots> \<le> 1 / 2 ^ 45"
    by simp
  finally show ?thesis
    by (simp add: gc_double_def q_def x_def)
qed

lemma gc_basics_value:
  assumes "s \<noteq> []"
  shows "calculate_gc_content s
     = Inr (Finite (gc_double (str_count s (ord CHR ''G'') + str_count s (ord CHR ''C'')) (length s)))"
proof -
  let ?k = "str_count s (ord CHR ''G'') + str_count s (ord CHR ''C'')"
  have n: "0 < length s"
    using assms by simp
  have k: "?k \<le> length s"
    by (rule count_two_le) (simp add: ord_def)
  have "int (str_count s (ord CHR ''G'')) + int (str_count s (ord CHR ''C'')) = int ?k"
    by simp
  then show ?thesis
    using n gc_quotient [OF n k] gc_product [OF n k]
    by (simp only: calculate_gc_content_def Let_def) simp
qed

lemma gc_basics_eval:
  assumes "s \<noteq> []"
    and "str_count s (ord CHR ''G'') + str_count s (ord CHR ''C'') = k" and "length s = n"
    and "gc_double k n = r"
  shows "calculate_gc_content s = Inr (Finite r)"
  using gc_basics_value [OF assms(1)] assms(2-4) by simp

lemma gc_fasta_value:
  "calculate_gc_content_fasta u s =
     (if upper u s = [] then Inr (Finite 0) else calculate_gc_content (upper u s))"
  by (simp add: calculate_gc_content_fasta_def calculate_gc_content_def Let_def)

lemma gc_fasta_eval:
  assumes "upper u s = t" and "t \<noteq> []"
    and "str_count t (ord CHR ''G'') + str_count t (ord CHR ''C'') = k" and "length t = n"
    and "gc_double k n = r"
  shows "calculate_gc_content_fasta u s = Inr (Finite r)"
  using gc_basics_eval [OF assms(2-5)] assms(1,2) by (simp add: gc_fasta_value)

lemma gc_fasta_cong:
  "upper u s = upper u' s' \<Longrightarrow> calculate_gc_content_fasta u s = calculate_gc_content_fasta u' s'"
  by (simp add: gc_fasta_value)

section \<open>Case conversion of ASCII strings\<close>







text \<open>
  The example with U+0130 does not depend on the rest of the tables: the code points
  it meets are all written out in \<open>to_upper\<close> and \<open>to_lower\<close>.
\<close>

lemma dotted_example_any_table:
  "calculate_gc_content_fasta u example_dotted
     = calculate_gc_content_fasta plain_upper example_dotted \<and>
   calculate_gc_content_fasta u (lower l example_dotted)
     = calculate_gc_content_fasta plain_upper (lower plain_lower example_dotted)"
proof
  have low: "lower l example_dotted = [0x69, 0x307, 0x67]" for l
    by (simp add: lower_def to_lower_def example_dotted_def ord_def)
  have "upper u example_dotted = upper plain_upper example_dotted"
    by (simp add: upper_def to_upper_def example_dotted_def ord_def)
  then show "calculate_gc_content_fasta u example_dotted
     = calculate_gc_content_fasta plain_upper example_dotted"
    by (rule gc_fasta_cong)
  have "upper u [0x69, 0x307, 0x67] = upper plain_upper [0x69, 0x307, 0x67]"
    by (simp add: upper_def to_upper_def)
  then have "upper u (lower l example_dotted) = upper plain_upper (lower plain_lower example_dotted)"
    by (simp only: low)
  then show "calculate_gc_content_fasta u (lower l example_dotted)
     = calculate_gc_content_fasta plain_upper (lower plain_lower example_dotted)"
    by (rule gc_fasta_cong)
qed

section \<open>Exceptions outside \<open>Exception\<close>\<close>

lemma not_exception_propagates:
  "\<not> isinstance e Exception \<Longrightarrow>
   \<not> isinstance e ZeroDivisionError \<and> \<not> isinstance e FileNotFoundError"
proof (cases e)
  case (Raise c a)
  assume "\<not> isinstance e Exception"
  then show ?thesis
    unfolding Raise by (cases c) simp_all
qed

section \<open>Claims about the FASTA parser\<close>

text \<open>
  Claim C1. For every input in which the identifiers of the header lines are pairwise
  distinct and every line before the first header line is blank, the loop ends without
  an exception and \<open>sequences_dict\<close> holds exactly one entry per header line, in file
  order: the key is the text after the marker of the whitespace-stripped header line
  (whitespace that follows the marker stays in the key), the value is the
  concatenation, in file order, of the uppercased, whitespace-stripped,
  non-blank lines between that header line and the next one (or the end of the input).
  No warning is printed.
\<close>

theorem C1_distinct_headers_parse:
  assumes "distinct (map header_id (filter is_header lines))"
    and "list_all (\<lambda>raw. strip raw = []) (takeWhile (\<lambda>r. \<not> is_header r) lines)"
  shows "\<exists>st. parse_loop u initial_state lines = Inr st \<and>
     sequences_dict st = spec_records u lines \<and> printed st = []"
proof -
  have cur: "current_sequence_id initial_state = None"
    by (simp add: initial_state_def)
  obtain st where run: "parse_loop u initial_state lines = Inr st"
    and d: "sequences_dict st = dict_store (sequences_dict initial_state) (spec_records u lines)"
    using loop_before_header [OF cur] by blast
  have "dict_store [] (spec_records u lines) = [] @ spec_records u lines"
    using assms(1) by (intro dict_store_distinct) (simp add: keys_spec_records)
  then have "sequences_dict st = spec_records u lines"
    using d by (simp add: initial_state_def)
  moreover have "printed st = []"
    using loop_silent [OF cur assms(2), where u = u] run by (simp add: initial_state_def)
  ultimately show ?thesis
    using run by simp
qed

theorem C1_distinct_headers_parse_witness:
  "\<exists>st. parse_loop plain_upper initial_state example_lines = Inr st \<and>
     sequences_dict st = [(lit ''seq1 human'', lit ''ACGTGGCC''), (lit ''seq2'', lit ''TTAA'')] \<and> printed st = []"
proof -
  have h1: "distinct (map header_id (filter is_header example_lines))"
    by code_simp
  have h2: "list_all (\<lambda>raw. strip raw = []) (takeWhile (\<lambda>r. \<not> is_header r) example_lines)"
    by code_simp
  have r: "spec_records plain_upper example_lines = [(lit ''seq1 human'', lit ''ACGTGGCC''), (lit ''seq2'', lit ''TTAA'')]"
    by code_simp
  show ?thesis
    using C1_distinct_headers_parse [OF h1 h2, where u = plain_upper] unfolding r .
qed

text \<open>
  Claim C3. A line read before any header line has been seen (every earlier line is
  not a header line) whose whitespace-stripped text is non-blank and does not begin with
  the marker is reported and skipped: the iteration prints the warning, which ends with
  the stripped line, leaves \<open>sequences_dict\<close> as it was, and the loop goes on with the
  rest of the input.
\<close>

theorem C3_line_before_header_skipped:
  assumes "list_all (\<lambda>r. \<not> is_header r) before" and "\<not> is_header raw" and "strip raw \<noteq> []"
  shows "\<exists>st st'. parse_loop u initial_state before = Inr st \<and> parse_line u st raw = Inr st' \<and>
     sequences_dict st' = sequences_dict st \<and>
     printed st' = printed st @ [warning (strip raw)] \<and>
     parse_loop u initial_state (before @ raw # rest) = parse_loop u st' rest"
proof -
  have cur: "current_sequence_id initial_state = None"
    by (simp add: initial_state_def)
  obtain st where run: "parse_loop u initial_state before = Inr st"
    and none: "current_sequence_id st = None"
    using loop_no_header [OF cur assms(1)] by blast
  let ?st' = "st\<lparr>printed := printed st @ [warning (strip raw)]\<rparr>"
  have step: "parse_line u st raw = Inr ?st'"
    using assms(2,3) none by (rule parse_line_warn)
  have "parse_loop u initial_state (before @ raw # rest) = parse_loop u ?st' rest"
    using run step by (simp add: parse_loop_append)
  with run step show ?thesis by auto
qed

theorem C3_line_before_header_skipped_witness:
  "\<exists>st st'. parse_loop plain_upper initial_state [[10], lit ''  # comment'' @ [10]] = Inr st \<and>
     parse_line plain_upper st (lit ''acgt'' @ [10]) = Inr st' \<and>
     sequences_dict st' = sequences_dict st \<and>
     printed st'
       = printed st @ [lit ''Warning: Sequence line found before any header. Skipping: acgt''] \<and>
     parse_loop plain_upper initial_state
         ([[10], lit ''  # comment'' @ [10]] @ (lit ''acgt'' @ [10]) # [lit ''>id'', lit ''gg''])
       = parse_loop plain_upper st' [lit ''>id'', lit ''gg'']"
proof -
  have h1: "list_all (\<lambda>r. \<not> is_header r) [[10], lit ''  # comment'' @ [10]]"
    by code_simp
  have h2: "\<not> is_header (lit ''acgt'' @ [10])"
    by code_simp
  have h3: "strip (lit ''acgt'' @ [10]) \<noteq> []"
    by code_simp
  have w: "warning (strip (lit ''acgt'' @ [10]))
     = lit ''Warning: Sequence line found before any header. Skipping: acgt''"
    by code_simp
  show ?thesis
    using C3_line_before_header_skipped [OF h1 h2 h3, where rest = "[lit ''>id'', lit ''gg'']"
        and u = plain_upper]
    unfolding w .
qed

text \<open>
  Claim C4. From any state, a line whose whitespace-stripped text begins with the marker
  makes the rest of that stripped text the current identifier and sets its entry to the
  empty string. The lines that follow, up to the next header line, leave the identifier
  current and append their uppercased stripped text to that entry, blank lines aside.
  From the next header line on the entry no longer changes, unless a later header line
  carries the same identifier.
\<close>

theorem C4_header_starts_record:
  assumes "is_header raw" and "list_all (\<lambda>r. \<not> is_header r) body" and "is_header nxt"
    and "header_id raw \<notin> set (map header_id (filter is_header (nxt # later)))"
  shows "\<exists>st1 st2 st3. parse_line u st raw = Inr st1 \<and>
     current_sequence_id st1 = Some (header_id raw) \<and>
     dict_get (sequences_dict st1) (header_id raw) = Inr [] \<and>
     parse_loop u st1 body = Inr st2 \<and>
     current_sequence_id st2 = Some (header_id raw) \<and>
     dict_get (sequences_dict st2) (header_id raw)
       = Inr (concat (map (upper u) (filter (\<lambda>l. l \<noteq> []) (map strip body)))) \<and>
     parse_loop u st2 (nxt # later) = Inr st3 \<and>
     dict_get (sequences_dict st3) (header_id raw)
       = Inr (concat (map (upper u) (filter (\<lambda>l. l \<noteq> []) (map strip body))))"
proof -
  let ?k = "header_id raw"
  let ?acc = "concat (map (upper u) (filter (\<lambda>l. l \<noteq> []) (map strip body)))"
  let ?st1 = "st\<lparr>current_sequence_id := Some ?k,
     sequences_dict := dict_set (sequences_dict st) ?k []\<rparr>"
  have step: "parse_line u st raw = Inr ?st1"
    using assms(1) by (rule parse_line_header)
  have cur1: "current_sequence_id ?st1 = Some ?k"
    by simp
  have val1: "map_of (sequences_dict ?st1) ?k = Some []"
    by (simp add: map_of_dict_set)
  obtain st2 where run2: "parse_loop u ?st1 body = Inr st2"
    and d2: "sequences_dict st2 =
       dict_store (dict_set (sequences_dict ?st1) ?k ([] @ spec_sequence u body)) (spec_records u body)"
    using loop_in_record [OF cur1 val1, where ls = body] by blast
  have cur2: "current_sequence_id st2 = Some ?k"
    using loop_state_id_kept [OF assms(2) run2] by simp
  have val2: "map_of (sequences_dict st2) ?k = Some ?acc"
    using d2 assms(2)
    by (simp add: spec_records_no_header dict_store_Nil map_of_dict_set spec_sequence_no_header)
  obtain st3 where run13: "parse_loop u ?st1 (body @ nxt # later) = Inr st3"
    and d3: "sequences_dict st3 =
       dict_store (dict_set (sequences_dict ?st1) ?k ([] @ spec_sequence u (body @ nxt # later)))
         (spec_records u (body @ nxt # later))"
    using loop_in_record [OF cur1 val1, where ls = "body @ nxt # later"] by blast
  have run3: "parse_loop u st2 (nxt # later) = Inr st3"
    using run13 run2 by (simp add: parse_loop_append)
  have recs: "spec_records u (body @ nxt # later) = spec_records u (nxt # later)"
    using assms(2) by (induction body) auto
  have "?k \<notin> fst ` set (spec_records u (nxt # later))"
    using assms(4) keys_spec_records [where ls = "nxt # later"] by (metis set_map)
  then have "map_of (rev (spec_records u (nxt # later))) ?k = None"
    by (simp add: map_of_eq_None_iff)
  then have val3: "map_of (sequences_dict st3) ?k = Some ?acc"
    using assms(2,3) unfolding d3 recs map_of_dict_store
    by (simp add: map_add_def map_of_dict_set spec_sequence_until_header spec_sequence_no_header)
  have "parse_line u st raw = Inr ?st1 \<and>
     current_sequence_id ?st1 = Some ?k \<and>
     dict_get (sequences_dict ?st1) ?k = Inr [] \<and>
     parse_loop u ?st1 body = Inr st2 \<and>
     current_sequence_id st2 = Some ?k \<and>
     dict_get (sequences_dict st2) ?k = Inr ?acc \<and>
     parse_loop u st2 (nxt # later) = Inr st3 \<and>
     dict_get (sequences_dict st3) ?k = Inr ?acc"
    using step cur1 run2 cur2 run3 dict_get_Inr [OF val1] dict_get_Inr [OF val2]
      dict_get_Inr [OF val3]
    by simp
  then show ?thesis
    by blast
qed

theorem C4_header_starts_record_witness:
  "\<exists>st1 st2 st3. parse_line plain_upper example_state example_header = Inr st1 \<and>
     current_sequence_id st1 = Some (lit ''id'') \<and>
     dict_get (sequences_dict st1) (lit ''id'') = Inr [] \<and>
     parse_loop plain_upper st1 example_body = Inr st2 \<and>
     current_sequence_id st2 = Some (lit ''id'') \<and>
     dict_get (sequences_dict st2) (lit ''id'') = Inr (lit ''ACGT'') \<and>
     parse_loop plain_upper st2 ((lit ''>seq2'' @ [10]) # [lit ''tt'']) = Inr st3 \<and>
     dict_get (sequences_dict st3) (lit ''id'') = Inr (lit ''ACGT'')"
proof -
  have h1: "is_header example_header"
    by code_simp
  have h2: "list_all (\<lambda>r. \<not> is_header r) example_body"
    by code_simp
  have h3: "is_header (lit ''>seq2'' @ [10])"
    by code_simp
  have h4: "header_id example_header
     \<notin> set (map header_id (filter is_header ((lit ''>seq2'' @ [10]) # [lit ''tt''])))"
    by code_simp
  have k: "header_id example_header = lit ''id''"
    by code_simp
  have acc: "concat (map (upper plain_upper) (filter (\<lambda>l. l \<noteq> []) (map strip example_body))) = lit ''ACGT''"
    by code_simp
  show ?thesis
    using C4_header_starts_record [OF h1 h2 h3 h4, where st = example_state and u = plain_upper] unfolding k acc .
qed

text \<open>
  Claim C6. After the loop has processed any prefix of the input, every key occurs once
  in \<open>sequences_dict\<close>, the keys are the identifiers of the header lines of that prefix,
  and so each key is the text after the marker of the whitespace-stripped text of some
  header line of the input (whitespace that follows the marker stays in the key).
  Every single iteration preserves the uniqueness of the keys.
\<close>

theorem C6_keys_unique:
  "(\<exists>st. parse_loop u initial_state (take n lines) = Inr st \<and>
      distinct (dict_keys (sequences_dict st)) \<and>
      set (dict_keys (sequences_dict st)) = set (map header_id (filter is_header (take n lines))) \<and>
      (\<forall>k \<in> set (dict_keys (sequences_dict st)). \<exists>raw \<in> set lines. is_header raw \<and> k = header_id raw)) \<and>
   (distinct (dict_keys (sequences_dict s)) \<longrightarrow> parse_line u s raw = Inr s' \<longrightarrow>
      distinct (dict_keys (sequences_dict s')))"
proof -
  have cur: "current_sequence_id initial_state = None"
    by (simp add: initial_state_def)
  obtain st where run: "parse_loop u initial_state (take n lines) = Inr st"
    and d: "sequences_dict st = dict_store (sequences_dict initial_state) (spec_records u (take n lines))"
    using loop_before_header [OF cur] by blast
  have d': "sequences_dict st = dict_store [] (spec_records u (take n lines))"
    using d by (simp add: initial_state_def)
  have ks: "distinct (map fst (sequences_dict st)) \<and>
     set (map fst (sequences_dict st)) = set (map fst ([] :: py_dict)) \<union> set (map fst (spec_records u (take n lines)))"
    unfolding d' by (rule keys_dict_store) simp
  then have dist: "distinct (dict_keys (sequences_dict st))"
    and keys: "set (dict_keys (sequences_dict st)) = set (map header_id (filter is_header (take n lines)))"
    by (simp_all add: dict_keys_def keys_spec_records)
  have "\<forall>k \<in> set (dict_keys (sequences_dict st)). \<exists>raw \<in> set lines. is_header raw \<and> k = header_id raw"
    unfolding keys using in_set_takeD by fastforce
  with run dist keys have first: "\<exists>st. parse_loop u initial_state (take n lines) = Inr st \<and>
      distinct (dict_keys (sequences_dict st)) \<and>
      set (dict_keys (sequences_dict st)) = set (map header_id (filter is_header (take n lines))) \<and>
      (\<forall>k \<in> set (dict_keys (sequences_dict st)). \<exists>raw \<in> set lines. is_header raw \<and> k = header_id raw)"
    by blast
  have "distinct (dict_keys (sequences_dict s)) \<longrightarrow> parse_line u s raw = Inr s' \<longrightarrow>
      distinct (dict_keys (sequences_dict s'))"
    using parse_line_keys_distinct by (simp add: dict_keys_def)
  with first show ?thesis
    by (rule conjI)
qed

theorem C6_keys_unique_witness:
  "(\<exists>st. parse_loop plain_upper initial_state (take 5 example_duplicates) = Inr st \<and>
      distinct (dict_keys (sequences_dict st)) \<and>
      set (dict_keys (sequences_dict st)) = {lit ''a'', lit ''b''}) \<and>
   distinct (dict_keys (sequences_dict example_state)) \<and>
   parse_line plain_upper example_state example_header = Inr example_state_after \<and>
   distinct (dict_keys (sequences_dict example_state_after))"
proof -
  have h1: "distinct (dict_keys (sequences_dict example_state))"
    by code_simp
  have h2: "parse_line plain_upper example_state example_header = Inr example_state_after"
    by code_simp
  have ks: "map header_id (filter is_header (take 5 example_duplicates)) = [lit ''a'', lit ''b'', lit ''a'']"
    by code_simp
  show ?thesis
    using C6_keys_unique [where n = 5 and lines = example_duplicates and s = example_state and raw = example_header
        and s' = example_state_after and u = plain_upper]
      h1 h2 unfolding ks by auto
qed

text \<open>
  Claim C8. When more than one header line carries the identifier \<open>k\<close>, the parsed
  dictionary has exactly one entry for \<open>k\<close>, and its value is the sequence of the last
  record with that identifier alone: the sequence data of the earlier ones is gone.
\<close>

theorem C8_duplicate_header_last_wins:
  assumes "1 < length (filter (\<lambda>raw. is_header raw \<and> header_id raw = k) lines)"
  shows "\<exists>st. parse_loop u initial_state lines = Inr st \<and>
     length (filter (\<lambda>e. fst e = k) (sequences_dict st)) = 1 \<and>
     dict_get (sequences_dict st) k
       = Inr (snd (last (filter (\<lambda>r. fst r = k) (spec_records u lines))))"
proof -
  have cur: "current_sequence_id initial_state = None"
    by (simp add: initial_state_def)
  obtain st where run: "parse_loop u initial_state lines = Inr st"
    and d: "sequences_dict st = dict_store (sequences_dict initial_state) (spec_records u lines)"
    using loop_before_header [OF cur] by blast
  have d': "sequences_dict st = dict_store [] (spec_records u lines)"
    using d by (simp add: initial_state_def)
  have ne: "filter (\<lambda>r. fst r = k) (spec_records u lines) \<noteq> []"
    using assms count_spec_records [where k = k and ls = lines and u = u] by auto
  have ks: "distinct (map fst (sequences_dict st)) \<and>
     set (map fst (sequences_dict st)) = set (map fst ([] :: py_dict)) \<union> set (map fst (spec_records u lines))"
    unfolding d' by (rule keys_dict_store) simp
  have "k \<in> fst ` set (spec_records u lines)"
    using ne by (auto simp add: filter_empty_conv)
  then have "k \<in> fst ` set (sequences_dict st)"
    using ks by auto
  then have once: "length (filter (\<lambda>e. fst e = k) (sequences_dict st)) = 1"
    using ks by (intro distinct_key_once) simp_all
  have "map_of (sequences_dict st) k = Some (snd (last (filter (\<lambda>r. fst r = k) (spec_records u lines))))"
    unfolding d' map_of_dict_store using map_of_rev_last [OF ne] by (simp add: map_add_def)
  then have "dict_get (sequences_dict st) k
       = Inr (snd (last (filter (\<lambda>r. fst r = k) (spec_records u lines))))"
    by (rule dict_get_Inr)
  with run once show ?thesis
    by blast
qed

theorem C8_duplicate_header_last_wins_witness:
  "\<exists>st. parse_loop plain_upper initial_state example_duplicates = Inr st \<and>
     length (filter (\<lambda>e. fst e = lit ''a'') (sequences_dict st)) = 1 \<and>
     dict_get (sequences_dict st) (lit ''a'') = Inr (lit ''GGTT'')"
proof -
  have h: "1 < length (filter (\<lambda>raw. is_header raw \<and> header_id raw = lit ''a'') example_duplicates)"
    by code_simp
  have v: "snd (last (filter (\<lambda>r. fst r = lit ''a'') (spec_records plain_upper example_duplicates))) = lit ''GGTT''"
    by code_simp
  show ?thesis
    using C8_duplicate_header_last_wins [OF h, where u = plain_upper] unfolding v .
qed

text \<open>
  Claim C7. On every finite list of lines the loop terminates without an exception, and
  the positions it reads are \<open>0, 1, \<dots>, length lines - 1\<close> in this order: every line is
  read exactly once and none is read again.
\<close>

theorem C7_single_pass:
  "\<exists>st. scan u lines 0 initial_state = ([0..<length lines], Inr st) \<and>
     parse_loop u initial_state lines = Inr st"
proof -
  have cur: "current_sequence_id initial_state = None"
    by (simp add: initial_state_def)
  obtain st where run: "parse_loop u initial_state lines = Inr st"
    using loop_before_header [OF cur] by blast
  then have "scan u lines 0 initial_state = ([0..<length lines], Inr st)"
    by (intro scan_parse_loop) simp_all
  with run show ?thesis
    by blast
qed

theorem C7_single_pass_witness:
  "\<exists>st. scan plain_upper example_lines 0 initial_state = ([0, 1, 2, 3, 4, 5], Inr st) \<and>
     parse_loop plain_upper initial_state example_lines = Inr st"
proof -
  have n: "[0..<length example_lines] = [0, 1, 2, 3, 4, 5]"
    by code_simp
  show ?thesis
    using C7_single_pass [where lines = example_lines and u = plain_upper] unfolding n .
qed

section \<open>Claims about the GC content\<close>

text \<open>
  Claim C2, as stated, fails. The function of the FASTA notebook returns 100 on \<open>gc\<close>,
  where the stated percentage \<open>100 * (count of G + count of C) / len(s)\<close> is 0. On the
  empty string the functions return 0 where the stated quotient has no value. On \<open>GAA\<close>
  the function returns the float \<open>2345624805922133 / 2 ^ 46\<close>, printed as
  33.33333333333333, which is not the stated \<open>100 / 3\<close>.
\<close>

theorem C2_gc_content_counterexample:
  "calculate_gc_content_fasta plain_upper (lit ''gc'') = Inr (Finite 100) \<and>
   spec_gc_percentage (lit ''gc'') = Some 0 \<and>
   calculate_gc_content [] = Inr (Finite 0) \<and> spec_gc_percentage [] = None \<and>
   calculate_gc_content (lit ''GAA'') = Inr (Finite (2345624805922133 / 2 ^ 46)) \<and>
   spec_gc_percentage (lit ''GAA'') = Some (100 / 3)"
proof -
  have "calculate_gc_content_fasta plain_upper (lit ''gc'') = Inr (Finite 100)"
    by (rule gc_fasta_eval [where t = "lit ''GC''" and k = 2 and n = 2]; code_simp)
  moreover have "spec_gc_percentage (lit ''gc'') = Some 0"
    by code_simp
  moreover have "calculate_gc_content [] = Inr (Finite 0)"
    by (simp add: calculate_gc_content_def)
  moreover have "spec_gc_percentage [] = None"
    by (simp add: spec_gc_percentage_def)
  moreover have "calculate_gc_content (lit ''GAA'') = Inr (Finite (2345624805922133 / 2 ^ 46))"
    by (rule gc_basics_eval [where k = 1 and n = 3]; code_simp)
  moreover have "spec_gc_percentage (lit ''GAA'') = Some (100 / 3)"
    by code_simp
  ultimately show ?thesis
    by (intro conjI)
qed

text \<open>
  Claim C2, amended. For the empty string the function of the basics notebook returns
  0. For every other string it returns a finite float: the quotient of the count of
  \<open>G\<close> and \<open>C\<close> by the length, rounded to a double, times 100, rounded again. That float
  differs from the exact percentage \<open>100 * (count of G + count of C) / len(s)\<close> by at most
  \<open>1 / 2 ^ 45\<close>. The function of the FASTA notebook returns the same for the uppercased
  string, so that it counts \<open>g\<close> and \<open>c\<close> as well.
\<close>

theorem C2_gc_content_percentage:
  "(case spec_gc_percentage s of
      None \<Rightarrow> calculate_gc_content s = Inr (Finite 0)
    | Some p \<Rightarrow>
        (\<exists>r. calculate_gc_content s = Inr (Finite r) \<and>
           r = gc_double (str_count s (ord CHR ''G'') + str_count s (ord CHR ''C'')) (length s) \<and>
           \<bar>r - p\<bar> \<le> 1 / 2 ^ 45)) \<and>
   (case spec_gc_percentage (upper u s) of
      None \<Rightarrow> calculate_gc_content_fasta u s = Inr (Finite 0)
    | Some p \<Rightarrow>
        (\<exists>r. calculate_gc_content_fasta u s = Inr (Finite r) \<and>
           r = gc_double (str_count (upper u s) (ord CHR ''G'') + str_count (upper u s) (ord CHR ''C''))
                 (length (upper u s)) \<and>
           \<bar>r - p\<bar> \<le> 1 / 2 ^ 45))"
proof -
  have basics: "case spec_gc_percentage t of
      None \<Rightarrow> calculate_gc_content t = Inr (Finite 0)
    | Some p \<Rightarrow>
        (\<exists>r. calculate_gc_content t = Inr (Finite r) \<and>
           r = gc_double (str_count t (ord CHR ''G'') + str_count t (ord CHR ''C'')) (length t) \<and>
           \<bar>r - p\<bar> \<le> 1 / 2 ^ 45)" for t
  proof (cases "t = []")
    case True
    then show ?thesis
      by (simp add: spec_gc_percentage_def calculate_gc_content_def)
  next
    case False
    let ?k = "str_count t (ord CHR ''G'') + str_count t (ord CHR ''C'')"
    have n: "0 < length t"
      using False by simp
    have k: "?k \<le> length t"
      by (rule count_two_le) (simp add: ord_def)
    have err: "\<bar>gc_double ?k (length t) - 100 * of_nat ?k / of_nat (length t)\<bar> \<le> 1 / 2 ^ 45"
      using n k by (rule gc_double_error)
    have spec: "spec_gc_percentage t = Some (100 * of_nat ?k / of_nat (length t))"
      using False by (simp add: spec_gc_percentage_def)
    show ?thesis
      unfolding spec option.case using gc_basics_value [OF False] err by blast
  qed
  have fasta: "calculate_gc_content_fasta u s = calculate_gc_content (upper u s)"
    by (simp add: gc_fasta_value calculate_gc_content_def)
  show ?thesis
    unfolding fasta using basics [of s] basics [of "upper u s"] by (rule conjI)
qed

text \<open>
  Claim C9. Both functions return 0 for the empty string, and for every string they
  return a finite float: the division raises neither \<open>ZeroDivisionError\<close> nor
  \<open>OverflowError\<close>.
\<close>

theorem C9_gc_content_total:
  "calculate_gc_content [] = Inr (Finite 0) \<and> calculate_gc_content_fasta u [] = Inr (Finite 0) \<and>
   (\<exists>r. calculate_gc_content s = Inr (Finite r)) \<and>
   (\<exists>r. calculate_gc_content_fasta u s = Inr (Finite r))"
proof -
  have total: "\<exists>r. calculate_gc_content t = Inr (Finite r)" for t
  proof (cases "t = []")
    case True
    then show ?thesis
      by (simp add: calculate_gc_content_def)
  next
    case False
    then show ?thesis
      by (simp add: gc_basics_value)
  qed
  have empty: "calculate_gc_content [] = Inr (Finite 0)"
    by (simp add: calculate_gc_content_def)
  have "calculate_gc_content_fasta u [] = Inr (Finite 0)"
    by (simp add: gc_fasta_value upper_def)
  moreover have "\<exists>r. calculate_gc_content_fasta u s = Inr (Finite r)"
    using total [of "upper u s"] by (simp add: gc_fasta_value)
  ultimately show ?thesis
    using empty total [of s] by simp
qed




section \<open>Claims about the error-handling demonstration\<close>

text \<open>
  Claim C5, as stated, fails in its last part: \<open>except Exception\<close> does not handle every
  other exception. A \<open>KeyboardInterrupt\<close> or a \<open>SystemExit\<close> raised in either \<open>try\<close> block is
  handled by neither clause and propagates, so the cell ends there.
\<close>

theorem C5_error_handling_counterexample:
  "\<not> isinstance (Raise KeyboardInterrupt []) ZeroDivisionError \<and>
   division_try (Inl (Raise KeyboardInterrupt [])) = Inl (Raise KeyboardInterrupt []) \<and>
   division_try (Inl (Raise SystemExit [])) = Inl (Raise SystemExit []) \<and>
   division_try (Inl (Raise GeneratorExit [])) = Inl (Raise GeneratorExit []) \<and>
   \<not> isinstance (Raise KeyboardInterrupt []) FileNotFoundError \<and>
   file_try (lit ''non_existent_file.txt'') (Inl (Raise KeyboardInterrupt []))
     = Inl (Raise KeyboardInterrupt []) \<and>
   file_try (lit ''non_existent_file.txt'') (Inl (Raise SystemExit [])) = Inl (Raise SystemExit [])"
  by (simp add: division_try_def except_division_def file_try_def except_file_def)

text \<open>
  Claim C5, amended. Dividing by a zero denominator raises \<open>ZeroDivisionError\<close>, which
  is caught: the friendly message is printed and execution continues with the \<open>print\<close>
  after the \<open>try\<close> statement. Opening a file that does not exist raises
  \<open>FileNotFoundError\<close>, which is caught: the friendly message is printed and the
  statement ends normally. Any other exception that is an instance of \<open>Exception\<close> is
  caught by the second clause, which prints it, and execution continues. An exception
  that is not an instance of \<open>Exception\<close> is caught by neither clause of either
  statement and propagates. With the values the cell assigns and no file of that name,
  the cell prints the three lines.
\<close>

theorem C5_error_handling:
  "division_demo numerator 0
     = Inr [Text zero_division_message, Text (lit ''Program continued gracefully!'')] \<and>
   (fs file_name = None \<longrightarrow>
      file_demo fs file_name = Inr [Text (file_not_found_message file_name)]) \<and>
   (isinstance e Exception \<longrightarrow> \<not> isinstance e ZeroDivisionError \<longrightarrow>
      division_try (Inl e)
        = Inr [Text (lit ''An unexpected error occurred: '' @ str_of e),
               Text (lit ''Program continued gracefully!'')]) \<and>
   (isinstance e' Exception \<longrightarrow> \<not> isinstance e' FileNotFoundError \<longrightarrow>
      file_try file_name (Inl e')
        = Inr [Text (lit ''An unexpected error occurred while opening the file: '' @ str_of e')]) \<and>
   (\<not> isinstance e'' Exception \<longrightarrow>
      division_try (Inl e'') = Inl e'' \<and> file_try file_name (Inl e'') = Inl e'') \<and>
   (fs (lit ''non_existent_file.txt'') = None \<longrightarrow>
      error_handling_cell fs
        = Inr [Text zero_division_message, Text (lit ''Program continued gracefully!''),
               Text (file_not_found_message (lit ''non_existent_file.txt''))])"
proof -
  have division: "division_demo n 0
     = Inr [Text zero_division_message, Text (lit ''Program continued gracefully!'')]" for n
    by (simp add: division_demo_def division_try_def py_truediv_def except_division_def)
  have missing: "file_demo fs name = Inr [Text (file_not_found_message name)]"
    if "fs name = None" for name
    using that by (simp add: file_demo_def file_try_def open_read_def except_file_def)
  have other1: "division_try (Inl e)
        = Inr [Text (lit ''An unexpected error occurred: '' @ str_of e),
               Text (lit ''Program continued gracefully!'')]"
    if "isinstance e Exception" and "\<not> isinstance e ZeroDivisionError"
    using that by (simp add: division_try_def except_division_def)
  have other2: "file_try file_name (Inl e')
        = Inr [Text (lit ''An unexpected error occurred while opening the file: '' @ str_of e')]"
    if "isinstance e' Exception" and "\<not> isinstance e' FileNotFoundError"
    using that by (simp add: file_try_def except_file_def)
  have uncaught: "division_try (Inl e'') = Inl e'' \<and> file_try file_name (Inl e'') = Inl e''"
    if "\<not> isinstance e'' Exception"
    using that not_exception_propagates [of e'']
    by (simp add: division_try_def except_division_def file_try_def except_file_def)
  have cell: "error_handling_cell fs
        = Inr [Text zero_division_message, Text (lit ''Program continued gracefully!''),
               Text (file_not_found_message (lit ''non_existent_file.txt''))]"
    if "fs (lit ''non_existent_file.txt'') = None"
    using missing [OF that] by (simp add: error_handling_cell_def division)
  show ?thesis
    using division missing other1 other2 uncaught cell by blast
qed

theorem C5_error_handling_witness:
  "division_demo 10 0
     = Inr [Text zero_division_message, Text (lit ''Program continued gracefully!'')] \<and>
   file_demo Map.empty (lit ''non_existent_file.txt'')
     = Inr [Text (file_not_found_message (lit ''non_existent_file.txt''))] \<and>
   division_try (Inl (Raise OverflowError (lit ''integer division result too large for a float'')))
     = Inr [Text (lit ''An unexpected error occurred: ''
                    @ lit ''integer division result too large for a float''),
            Text (lit ''Program continued gracefully!'')] \<and>
   file_try (lit ''non_existent_file.txt'') (Inl (Raise PermissionError (lit ''Permission denied'')))
     = Inr [Text (lit ''An unexpected error occurred while opening the file: ''
                    @ lit ''Permission denied'')] \<and>
   division_try (Inl (Raise SystemExit [])) = Inl (Raise SystemExit []) \<and>
   file_try (lit ''non_existent_file.txt'') (Inl (Raise SystemExit [])) = Inl (Raise SystemExit []) \<and>
   error_handling_cell Map.empty
     = Inr [Text zero_division_message, Text (lit ''Program continued gracefully!''),
            Text (file_not_found_message (lit ''non_existent_file.txt''))] \<and>
   division_demo (10 ^ 400) 1
     = Inr [Text (lit ''An unexpected error occurred: ''
                    @ lit ''integer division result too large for a float''),
            Text (lit ''Program continued gracefully!'')]"
  using C5_error_handling [where numerator = 10 and fs = Map.empty
      and file_name = "lit ''non_existent_file.txt''"
      and e = "Raise OverflowError (lit ''integer division result too large for a float'')"
      and e' = "Raise PermissionError (lit ''Permission denied'')"
      and e'' = "Raise SystemExit []"]
    py_truediv_overflow [of 1 "10 ^ 400"]
  by (simp add: division_demo_def)

end
